theory Spec2Isabelle
  imports Complex_Main "HOL-Library.Char_ord" "HOL-Library.List_Lexorder"
begin

section \<open>The LLH scan driver of \<^verbatim>\<open>pisa/analysis/llr/RunLLHScan.py\<close>\<close>

text \<open>
  The script scans the atmospheric oscillation parameters over a grid. At every grid point
  it writes the grid values into the hypothesis parameters, calls the optimizer
  \<^verbatim>\<open>find_opt_scipy\<close> and appends the last likelihood of the returned trajectory to the
  accumulator \<^verbatim>\<open>steps\<close>. The model below follows lines 130 to 198 of the script.
\<close>

subsection \<open>Data\<close>

type_synonym name = string

text \<open>
  One parameter of the settings: a Python dict with the entries \<^verbatim>\<open>'value'\<close>,
  \<^verbatim>\<open>'fixed'\<close> and, after \<^verbatim>\<open>calc_steps\<close>, \<^verbatim>\<open>'steps'\<close>. The entries the driver
  never reads (\<^verbatim>\<open>'range'\<close>, \<^verbatim>\<open>'prior'\<close>) live in the extension slot of the record.
  The type \<open>'v\<close> stands for Python's floats, which the driver only copies.
\<close>

record 'v param =
  p_value :: 'v
  p_fixed :: bool
  p_steps :: "'v list"

text \<open>
  The exceptions the modelled lines can raise: a missing dict key, \<^verbatim>\<open>[-1]\<close> on an empty
  trajectory, and whatever \<^verbatim>\<open>find_opt_scipy\<close> raises (\<open>'e\<close>).
\<close>

datatype 'e error = KeyError name | IndexError | EvaluatorError 'e

text \<open>
  The state the loop of lines 179 to 195 works on. \<open>hypo_params\<close> and \<open>steps\<close> are the
  dicts of the script. \<open>linked\<close> says that \<^verbatim>\<open>results[data_tag][hypo_tag]\<close> refers to the
  dict \<^verbatim>\<open>steps\<close> (line 195 stores the reference, so later appends are seen through it).
  \<open>visited\<close> is the sequence of positions announced at line 181 and \<open>calls\<close> the sequence
  of parameter dicts \<^verbatim>\<open>find_opt_scipy\<close> was invoked with: both are histories kept for
  stating properties, the script does not read them.
\<close>

record ('v, 'z) scan_state =
  hypo_params :: "name \<rightharpoonup> ('v, 'z) param_scheme"
  steps :: "name \<rightharpoonup> 'v list"
  linked :: bool
  visited :: "(name \<times> 'v) list list"
  calls :: "(name \<rightharpoonup> ('v, 'z) param_scheme) list"

subsection \<open>The Cartesian product\<close>

text \<open>
  \<^verbatim>\<open>itertools.product\<close>, as the Python documentation defines it:
  \<^verbatim>\<open>
    result = [[]]
    for pool in pools:
        result = [x+[y] for x in result for y in pool]
  \<close>
\<close>

definition product_step :: "'a list list \<Rightarrow> 'a list \<Rightarrow> 'a list list" where
  "product_step result pool = concat (map (\<lambda>x. map (\<lambda>y. x @ [y]) pool) result)"

definition product :: "'a list list \<Rightarrow> 'a list list" where
  "product pools = foldl product_step [[]] pools"

text \<open>
  Lines 168 and 169. \<open>atm_params\<close> is given by its items, a list of pairs with distinct
  names in the order the dict happens to hold them; \<^verbatim>\<open>sorted\<close> orders the items by name
  (the names are distinct, so the parameters themselves are never compared).
\<close>

definition steplist :: "(name \<times> ('v, 'z) param_scheme) list \<Rightarrow> (name \<times> 'v) list list" where
  "steplist atm_params =
     map (\<lambda>(name, param). map (\<lambda>step. (name, step)) (p_steps param))
         (sort_key fst atm_params)"

text \<open>Lines 175 and 176: an empty sequence for every scanned name, then for \<^verbatim>\<open>'llh'\<close>.\<close>

definition init_steps :: "(name \<times> ('v, 'z) param_scheme) list \<Rightarrow> (name \<rightharpoonup> 'v list)" where
  "init_steps atm_params = (map_of (map (\<lambda>(key, param). (key, [])) atm_params))(''llh'' \<mapsto> [])"

subsection \<open>The scan loop\<close>

text \<open>
  Lines 182 to 184, for the pairs of one position. \<^verbatim>\<open>hypo_params[k]['value'] = v\<close> raises
  KeyError when \<open>k\<close> is missing, and so does \<^verbatim>\<open>steps[k]\<close>. The state is returned with
  the error, since the assignments made before the exception stay.
\<close>

fun fix_values ::
  "(name \<times> 'v) list \<Rightarrow> ('v, 'z) scan_state \<Rightarrow> ('v, 'z) scan_state \<times> 'e error option" where
  "fix_values [] st = (st, None)"
| "fix_values ((k, v) # kvs) st =
     (case hypo_params st k of
        None \<Rightarrow> (st, Some (KeyError k))
      | Some p \<Rightarrow>
          (let st1 = st\<lparr>hypo_params := (hypo_params st)(k \<mapsto> p\<lparr>p_value := v\<rparr>)\<rparr> in
           case steps st1 k of
             None \<Rightarrow> (st1, Some (KeyError k))
           | Some xs \<Rightarrow> fix_values kvs (st1\<lparr>steps := (steps st1)(k \<mapsto> xs @ [v])\<rparr>)))"

text \<open>
  One iteration, lines 180 to 195. \<open>find_opt_scipy\<close> stands for the call of lines 187 to
  189 with every argument but \<open>hypo_params\<close> bound (they do not change during the loop); it
  returns the dict \<^verbatim>\<open>llh_data\<close> or raises. Line 192 looks up \<^verbatim>\<open>steps['llh']\<close> first, then
  \<^verbatim>\<open>llh_data['llh'][-1]\<close>.
\<close>

definition scan_point ::
  "((name \<rightharpoonup> ('v, 'z) param_scheme) \<Rightarrow> 'e + (name \<rightharpoonup> 'v list)) \<Rightarrow> (name \<times> 'v) list \<Rightarrow>
   ('v, 'z) scan_state \<Rightarrow> ('v, 'z) scan_state \<times> 'e error option" where
  "scan_point find_opt_scipy pos st =
     (case fix_values pos (st\<lparr>visited := visited st @ [pos]\<rparr>) of
        (st1, Some e) \<Rightarrow> (st1, Some e)
      | (st1, None) \<Rightarrow>
          (let st2 = st1\<lparr>calls := calls st1 @ [hypo_params st1]\<rparr> in
           case find_opt_scipy (hypo_params st1) of
             Inl e \<Rightarrow> (st2, Some (EvaluatorError e))
           | Inr llh_data \<Rightarrow>
               (case steps st2 ''llh'' of
                  None \<Rightarrow> (st2, Some (KeyError ''llh''))
                | Some ys \<Rightarrow>
                    (case llh_data ''llh'' of
                       None \<Rightarrow> (st2, Some (KeyError ''llh''))
                     | Some traj \<Rightarrow>
                         if traj = [] then (st2, Some IndexError)
                         else (st2\<lparr>steps := (steps st2)(''llh'' \<mapsto> ys @ [last traj]),
                                   linked := True\<rparr>, None)))))"

text \<open>The for loop of line 179: an exception ends it, with the state as it stands.\<close>

fun scan_loop ::
  "((name \<rightharpoonup> ('v, 'z) param_scheme) \<Rightarrow> 'e + (name \<rightharpoonup> 'v list)) \<Rightarrow> (name \<times> 'v) list list \<Rightarrow>
   ('v, 'z) scan_state \<Rightarrow> ('v, 'z) scan_state \<times> 'e error option" where
  "scan_loop find_opt_scipy [] st = (st, None)"
| "scan_loop find_opt_scipy (pos # rest) st =
     (case scan_point find_opt_scipy pos st of
        (st1, Some e) \<Rightarrow> (st1, Some e)
      | (st1, None) \<Rightarrow> scan_loop find_opt_scipy rest st1)"

text \<open>Lines 167 to 195: the state before the loop and the loop over the product.\<close>

definition init_state ::
  "(name \<rightharpoonup> ('v, 'z) param_scheme) \<Rightarrow> (name \<times> ('v, 'z) param_scheme) list \<Rightarrow> ('v, 'z) scan_state" where
  "init_state hypo atm_params =
     \<lparr>hypo_params = hypo, steps = init_steps atm_params, linked = False,
      visited = [], calls = []\<rparr>"

definition scan ::
  "((name \<rightharpoonup> ('v, 'z) param_scheme) \<Rightarrow> 'e + (name \<rightharpoonup> 'v list)) \<Rightarrow>
   (name \<rightharpoonup> ('v, 'z) param_scheme) \<Rightarrow> (name \<times> ('v, 'z) param_scheme) list \<Rightarrow>
   ('v, 'z) scan_state \<times> 'e error option" where
  "scan find_opt_scipy hypo atm_params =
     scan_loop find_opt_scipy (product (steplist atm_params)) (init_state hypo atm_params)"

subsection \<open>The persisted structure\<close>

text \<open>
  The dict \<^verbatim>\<open>results\<close> of lines 131 to 156 and 195, as handed to \<^verbatim>\<open>fileio.to_file\<close> at
  line 198: three settings documents, and under the data tag a dict with the Asimov data set
  and, once line 195 has run, the accumulator under the hypothesis tag.
\<close>

datatype ('d, 'v) tagged_entry = AsimovData 'd | ScanSteps "name \<rightharpoonup> 'v list"

datatype ('s, 'd, 'v) results_entry = Settings 's | Tagged "string \<rightharpoonup> ('d, 'v) tagged_entry"

text \<open>
  What the modelled lines start from: the parsed settings documents as they stand at line
  131, the two hierarchy flags of the command line, the value \<^verbatim>\<open>get_asimov_fmap\<close> returned
  at line 154, the dict \<^verbatim>\<open>hypo_params\<close> of line 159 and the items of \<^verbatim>\<open>atm_params\<close> after
  \<^verbatim>\<open>calc_steps\<close> (lines 164 and 165).
\<close>

record ('s, 'd, 'v, 'z) inputs =
  template_settings :: 's
  minimizer_settings :: 's
  grid_settings :: 's
  data_nh :: bool
  hypo_nh :: bool
  asimov_data_set :: 'd
  hypo :: "name \<rightharpoonup> ('v, 'z) param_scheme"
  atm_params :: "(name \<times> ('v, 'z) param_scheme) list"

definition data_tag :: "('s, 'd, 'v, 'z) inputs \<Rightarrow> string" where
  "data_tag inp = (if data_nh inp then ''data_NH'' else ''data_IH'')"

definition hypo_tag :: "('s, 'd, 'v, 'z) inputs \<Rightarrow> string" where
  "hypo_tag inp = (if hypo_nh inp then ''hypo_NH'' else ''hypo_IH'')"

text \<open>
  Lines 130 to 198. An exception of the loop ends the script before line 198, so nothing is
  written (\<open>Inl\<close>); otherwise the result is the dict given to \<^verbatim>\<open>fileio.to_file\<close>.
\<close>

definition run_llh_scan ::
  "((name \<rightharpoonup> ('v, 'z) param_scheme) \<Rightarrow> 'e + (name \<rightharpoonup> 'v list)) \<Rightarrow> ('s, 'd, 'v, 'z) inputs \<Rightarrow>
   'e error + (string \<rightharpoonup> ('s, 'd, 'v) results_entry)" where
  "run_llh_scan find_opt_scipy inp =
     (let results = [''template_settings'' \<mapsto> Settings (template_settings inp),
                     ''minimizer_settings'' \<mapsto> Settings (minimizer_settings inp),
                     ''grid_settings'' \<mapsto> Settings (grid_settings inp)];
          tagged = [''asimov_data'' \<mapsto> AsimovData (asimov_data_set inp)]
      in case scan find_opt_scipy (hypo inp) (atm_params inp) of
           (st, Some e) \<Rightarrow> Inl e
         | (st, None) \<Rightarrow>
             Inr (results(data_tag inp \<mapsto>
                    Tagged (if linked st then tagged(hypo_tag inp \<mapsto> ScanSteps (steps st))
                            else tagged))))"

subsection \<open>Notions for stating the properties\<close>

text \<open>
  The parameter dict after the values of one position have been written into it: the
  \<^verbatim>\<open>'value'\<close> entry of every name of the position is replaced, nothing else changes.
\<close>

definition fixed_at ::
  "(name \<rightharpoonup> ('v, 'z) param_scheme) \<Rightarrow> (name \<times> 'v) list \<Rightarrow> (name \<rightharpoonup> ('v, 'z) param_scheme)" where
  "fixed_at h pos =
     (\<lambda>k. case map_of pos k of
             None \<Rightarrow> h k
           | Some v \<Rightarrow> map_option (\<lambda>p. p\<lparr>p_value := v\<rparr>) (h k))"

text \<open>The values one name takes along a sequence of positions.\<close>

definition column :: "name \<Rightarrow> (name \<times> 'v) list list \<Rightarrow> 'v list" where
  "column k points = map (\<lambda>pos. the (map_of pos k)) points"

text \<open>
  The call of the optimizer on \<open>h\<close> returns a dict whose \<^verbatim>\<open>'llh'\<close> trajectory is not
  empty; and the last element of that trajectory.
\<close>

definition returns_llh ::
  "((name \<rightharpoonup> ('v, 'z) param_scheme) \<Rightarrow> 'e + (name \<rightharpoonup> 'v list)) \<Rightarrow>
   (name \<rightharpoonup> ('v, 'z) param_scheme) \<Rightarrow> bool" where
  "returns_llh find_opt_scipy h =
     (case find_opt_scipy h of
        Inl e \<Rightarrow> False
      | Inr llh_data \<Rightarrow> (case llh_data ''llh'' of None \<Rightarrow> False | Some traj \<Rightarrow> traj \<noteq> []))"

definition final_llh ::
  "((name \<rightharpoonup> ('v, 'z) param_scheme) \<Rightarrow> 'e + (name \<rightharpoonup> 'v list)) \<Rightarrow>
   (name \<rightharpoonup> ('v, 'z) param_scheme) \<Rightarrow> 'v" where
  "final_llh find_opt_scipy h = last (the (projr (find_opt_scipy h) ''llh''))"

text \<open>
  The names of the scanned parameters in the order of \<^verbatim>\<open>sorted\<close>, and the conditions under
  which the items are those of a dict whose names are parameters of \<open>hypo_params\<close> and
  leave the key \<^verbatim>\<open>'llh'\<close> free.
\<close>

definition scan_names :: "(name \<times> ('v, 'z) param_scheme) list \<Rightarrow> name list" where
  "scan_names atm = map fst (sort_key fst atm)"

definition scan_ready ::
  "(name \<rightharpoonup> ('v, 'z) param_scheme) \<Rightarrow> (name \<times> ('v, 'z) param_scheme) list \<Rightarrow> bool" where
  "scan_ready h atm \<longleftrightarrow>
     distinct (map fst atm) \<and> list_all (\<lambda>k. h k \<noteq> None \<and> k \<noteq> ''llh'') (map fst atm)"

text \<open>
  The accumulator after the values of one position have been appended to the sequences of
  its names (line 184), and after the likelihood of that position has been appended as well
  (line 192).
\<close>

definition row_added :: "(name \<rightharpoonup> 'v list) \<Rightarrow> (name \<times> 'v) list \<Rightarrow> (name \<rightharpoonup> 'v list)" where
  "row_added s pos =
     (\<lambda>k. case map_of pos k of
             None \<Rightarrow> s k
           | Some v \<Rightarrow> map_option (\<lambda>xs. xs @ [v]) (s k))"

definition row_recorded ::
  "((name \<rightharpoonup> ('v, 'z) param_scheme) \<Rightarrow> 'e + (name \<rightharpoonup> 'v list)) \<Rightarrow>
   (name \<rightharpoonup> ('v, 'z) param_scheme) \<Rightarrow> (name \<rightharpoonup> 'v list) \<Rightarrow> (name \<times> 'v) list \<Rightarrow>
   (name \<rightharpoonup> 'v list)" where
  "row_recorded find_opt_scipy h s pos =
     (row_added s pos)(''llh'' \<mapsto>
        the (row_added s pos ''llh'') @ [final_llh find_opt_scipy (fixed_at h pos)])"

text \<open>The state when \<^verbatim>\<open>find_opt_scipy\<close> is called for a position (lines 180 to 187).\<close>

definition point_fixed :: "(name \<times> 'v) list \<Rightarrow> ('v, 'z) scan_state \<Rightarrow> ('v, 'z) scan_state" where
  "point_fixed pos st =
     st\<lparr>hypo_params := fixed_at (hypo_params st) pos, steps := row_added (steps st) pos,
        visited := visited st @ [pos], calls := calls st @ [fixed_at (hypo_params st) pos]\<rparr>"

text \<open>
  What the loop keeps true of its state: the scanned names \<open>ns\<close> are keys of both dicts,
  \<^verbatim>\<open>'llh'\<close> is a key of the accumulator, and writing a full position into the parameters
  gives what it gives on the parameters \<open>h0\<close> the loop started from.
\<close>

definition loop_ready :: "name list \<Rightarrow> (name \<rightharpoonup> ('v, 'z) param_scheme) \<Rightarrow> ('v, 'z) scan_state \<Rightarrow> bool" where
  "loop_ready ns h0 st \<longleftrightarrow>
     distinct ns \<and> (\<forall>k \<in> set ns. hypo_params st k \<noteq> None \<and> steps st k \<noteq> None) \<and>
     steps st ''llh'' \<noteq> None \<and>
     (\<forall>q. map fst q = ns \<longrightarrow> fixed_at (hypo_params st) q = fixed_at h0 q)"

text \<open>
  The accumulator a scan over \<open>points\<close> is expected to end with: under \<^verbatim>\<open>'llh'\<close> the last
  likelihood of every position, under every scanned name its values along the positions,
  and no other key.
\<close>

definition scan_rows ::
  "((name \<rightharpoonup> ('v, 'z) param_scheme) \<Rightarrow> 'e + (name \<rightharpoonup> 'v list)) \<Rightarrow>
   (name \<rightharpoonup> ('v, 'z) param_scheme) \<Rightarrow> name list \<Rightarrow> (name \<times> 'v) list list \<Rightarrow> (name \<rightharpoonup> 'v list)" where
  "scan_rows find_opt_scipy h ns points =
     (\<lambda>k. if k = ''llh'' then Some (map (\<lambda>pos. final_llh find_opt_scipy (fixed_at h pos)) points)
          else if k \<in> set ns then Some (column k points)
          else None)"

subsection \<open>Concrete scans\<close>

text \<open>
  The scan of the two parameters \<^verbatim>\<open>theta23\<close> and \<^verbatim>\<open>deltam31\<close> with three and two
  grid values, a third parameter that is not scanned, and an optimizer that always returns
  the same trajectories.
\<close>

definition ex_atm :: "(name \<times> real param) list" where
  "ex_atm = [(''theta23'', \<lparr>p_value = 0.4, p_fixed = True, p_steps = [0.35, 0.5, 0.65]\<rparr>),
             (''deltam31'', \<lparr>p_value = 0.0024, p_fixed = True, p_steps = [0.002, 0.003]\<rparr>)]"

definition ex_hypo :: "name \<rightharpoonup> real param" where
  "ex_hypo = (map_of ex_atm)(''aeff_scale'' \<mapsto> \<lparr>p_value = 1, p_fixed = False, p_steps = []\<rparr>)"

definition ex_eval :: "(name \<rightharpoonup> real param) \<Rightarrow> unit + (name \<rightharpoonup> real list)" where
  "ex_eval h = Inr [''llh'' \<mapsto> [3, 2], ''aeff_scale'' \<mapsto> [7]]"

text \<open>
  A scan in which \<^verbatim>\<open>theta23\<close> has no grid value at all, and the inputs of a run of it.
\<close>

definition empty_atm :: "(name \<times> real param) list" where
  "empty_atm = [(''theta23'', \<lparr>p_value = 0.4, p_fixed = True, p_steps = []\<rparr>),
                (''deltam31'', \<lparr>p_value = 0.0024, p_fixed = True, p_steps = [0.002, 0.003]\<rparr>)]"

definition empty_inputs :: "(string, nat list, real, unit) inputs" where
  "empty_inputs =
     \<lparr>template_settings = ''template.json'', minimizer_settings = ''minimizer.json'',
      grid_settings = ''grid.json'', data_nh = True, hypo_nh = False,
      asimov_data_set = [12, 7, 3], hypo = ex_hypo, atm_params = empty_atm\<rparr>"

text \<open>A scan of one parameter that is not marked fixed.\<close>

definition free_atm :: "(name \<times> real param) list" where
  "free_atm = [(''theta23'', \<lparr>p_value = 0.4, p_fixed = False, p_steps = [0.35]\<rparr>)]"

definition free_hypo :: "name \<rightharpoonup> real param" where
  "free_hypo = map_of free_atm"

section \<open>Properties\<close>

subsection \<open>The product: length, elements and order\<close>

text \<open>
  The fold of the Python documentation computes the lists of \<open>product_lists\<close> in the same
  order.
\<close>

lemma foldl_product_step:
  "foldl product_step acc pools = concat (map (\<lambda>a. map (\<lambda>p. a @ p) (product_lists pools)) acc)"
proof (induction pools arbitrary: acc)
  case Nil
  show ?case by (induction acc) simp_all
next
  case (Cons pool pools)
  have "concat (map (\<lambda>a. map ((@) a) (product_lists pools)) (product_step acc pool))
      = concat (map (\<lambda>a. map ((@) a) (product_lists (pool # pools))) acc)"
  proof (induction acc)
    case Nil
    show ?case by (simp add: product_step_def)
  next
    case (Cons a acc)
    have "concat (map (\<lambda>x. map ((@) x) (product_lists pools)) (map (\<lambda>y. a @ [y]) pool))
        = map ((@) a) (concat (map (\<lambda>x. map ((#) x) (product_lists pools)) pool))"
      by (induction pool) simp_all
    with Cons show ?case by (simp add: product_step_def)
  qed
  with Cons.IH show ?case by simp
qed

lemma product_eq: "product pools = product_lists pools"
proof -
  have "map ((@) []) (product_lists pools) = product_lists pools"
    by (rule map_idI) simp
  then show ?thesis by (simp add: product_def foldl_product_step)
qed

lemma length_product: "length (product pools) = prod_list (map length pools)"
  by (induction pools) (simp_all add: product_eq length_concat o_def sum_list_triv)

lemma nth_concat_uniform:
  assumes "\<forall>ys \<in> set yss. length ys = m" and "j < length yss * m"
  shows "concat yss ! j = yss ! (j div m) ! (j mod m)"
  using assms
proof (induction yss arbitrary: j)
  case Nil
  then show ?case by simp
next
  case (Cons ys yss)
  have m: "0 < m" using Cons.prems(2) by (cases m) simp_all
  show ?case
  proof (cases "j < m")
    case True
    with Cons.prems show ?thesis by (simp add: nth_append)
  next
    case False
    then have ge: "m \<le> j" by simp
    have lt: "j - m < length yss * m" using Cons.prems(2) ge by simp
    have d: "j div m = Suc ((j - m) div m)"
      using ge m by (simp add: le_div_geq)
    have r: "j mod m = (j - m) mod m"
      using ge by (simp add: le_mod_geq)
    from Cons.IH [OF _ lt] Cons.prems(1)
    have "concat yss ! (j - m) = yss ! ((j - m) div m) ! ((j - m) mod m)" by simp
    with False Cons.prems(1) d r show ?thesis by (simp add: nth_append)
  qed
qed

lemma mixed_radix_digit:
  fixes j :: nat
  assumes "0 < M"
  shows "(j mod (A * (L * M))) div M mod L = j div M mod L"
proof -
  have "(j mod (M * (L * A))) div M = j div M mod (L * A)"
    using assms by (simp add: mod_mult2_eq)
  then show ?thesis
    by (simp add: mult.commute mult.left_commute mod_mod_cancel)
qed

lemma nth_product:
  assumes "j < length (product pools)" and "i < length pools"
  shows "product pools ! j ! i =
         pools ! i ! (j div prod_list (map length (drop (Suc i) pools)) mod length (pools ! i))"
  using assms
proof (induction pools arbitrary: j i)
  case Nil
  then show ?case by simp
next
  case (Cons xs xss)
  let ?P = "product xss"
  let ?m = "length ?P"
  have m: "?m = prod_list (map length xss)" by (rule length_product)
  have jlt: "j < length xs * ?m"
    using Cons.prems(1) by (simp add: length_product)
  then have mpos: "0 < ?m" by (cases ?m) simp_all
  have blk: "j div ?m < length xs"
    using jlt mpos by (simp add: less_mult_imp_div_less)
  have "product (xs # xss) ! j = concat (map (\<lambda>x. map ((#) x) ?P) xs) ! j"
    by (simp add: product_eq)
  also have "\<dots> = map (\<lambda>x. map ((#) x) ?P) xs ! (j div ?m) ! (j mod ?m)"
    by (rule nth_concat_uniform) (use jlt in auto)
  also have "\<dots> = xs ! (j div ?m) # ?P ! (j mod ?m)"
    using blk mpos by simp
  finally have el: "product (xs # xss) ! j = xs ! (j div ?m) # ?P ! (j mod ?m)" .
  show ?case
  proof (cases i)
    case 0
    with el blk m show ?thesis by simp
  next
    case (Suc i')
    then have i': "i' < length xss" using Cons.prems(2) by simp
    have jm: "j mod ?m < ?m" using mpos by simp
    let ?M = "prod_list (map length (drop (Suc i') xss))"
    let ?L = "length (xss ! i')"
    let ?A = "prod_list (map length (take i' xss))"
    have split: "?m = ?A * (?L * ?M)"
    proof -
      have "xss = take i' xss @ xss ! i' # drop (Suc i') xss"
        using i' by (rule id_take_nth_drop)
      then have "prod_list (map length xss)
               = prod_list (map length (take i' xss @ xss ! i' # drop (Suc i') xss))" by simp
      then show ?thesis by (simp add: m)
    qed
    have Mpos: "0 < ?M" using mpos split by (cases ?M) simp_all
    have "product (xs # xss) ! j ! i = ?P ! (j mod ?m) ! i'"
      using el Suc by simp
    also have "\<dots> = xss ! i' ! ((j mod ?m) div ?M mod ?L)"
      by (rule Cons.IH [OF jm i'])
    also have "(j mod ?m) div ?M mod ?L = j div ?M mod ?L"
      unfolding split using Mpos by (rule mixed_radix_digit)
    finally show ?thesis using Suc by simp
  qed
qed

lemma set_product:
  "set (product pools) = {p. length p = length pools \<and> (\<forall>i < length pools. p ! i \<in> set (pools ! i))}"
  by (auto simp: product_eq product_lists_set list_all2_conv_all_nth)

subsection \<open>One position, and the loop\<close>

lemma fixed_at_fixed_at:
  "map fst p = map fst q \<Longrightarrow> fixed_at (fixed_at h p) q = fixed_at h q"
proof (rule ext)
  fix k
  assume eq: "map fst p = map fst q"
  have "(map_of p k = None) = (map_of q k = None)"
    using eq by (metis map_of_eq_None_iff set_map)
  then show "fixed_at (fixed_at h p) q k = fixed_at h q k"
    by (cases "h k") (auto simp: fixed_at_def split: option.splits)
qed

lemma fix_values_ok:
  assumes "distinct (map fst pos)"
    and "\<forall>k \<in> set (map fst pos). hypo_params st k \<noteq> None \<and> steps st k \<noteq> None"
  shows "fix_values pos st =
           (st\<lparr>hypo_params := fixed_at (hypo_params st) pos, steps := row_added (steps st) pos\<rparr>,
            None :: 'e error option)"
  using assms
proof (induction pos arbitrary: st)
  case Nil
  have "fixed_at (hypo_params st) [] = hypo_params st" "row_added (steps st) [] = steps st"
    by (simp_all add: fixed_at_def row_added_def)
  then show ?case by simp
next
  case (Cons kv kvs)
  obtain k v where kv: "kv = (k, v)" by (cases kv)
  from Cons.prems(2) kv obtain p xs where p: "hypo_params st k = Some p" and xs: "steps st k = Some xs"
    by auto
  let ?st2 = "st\<lparr>hypo_params := (hypo_params st)(k \<mapsto> p\<lparr>p_value := v\<rparr>), steps := (steps st)(k \<mapsto> xs @ [v])\<rparr>"
  have knot: "map_of kvs k = None"
    using Cons.prems(1) kv by (simp add: map_of_eq_None_iff)
  have d: "distinct (map fst kvs)" using Cons.prems(1) by simp
  have pre: "\<forall>k' \<in> set (map fst kvs). hypo_params ?st2 k' \<noteq> None \<and> steps ?st2 k' \<noteq> None"
    using Cons.prems(2) by simp
  have h: "fixed_at ((hypo_params st)(k \<mapsto> p\<lparr>p_value := v\<rparr>)) kvs = fixed_at (hypo_params st) (kv # kvs)"
    using knot p by (auto simp: fixed_at_def kv fun_eq_iff split: option.splits)
  have s: "row_added ((steps st)(k \<mapsto> xs @ [v])) kvs = row_added (steps st) (kv # kvs)"
    using knot xs by (auto simp: row_added_def kv fun_eq_iff split: option.splits)
  have "fix_values (kv # kvs) st = (fix_values kvs ?st2 :: _ \<times> 'e error option)"
    using p xs by (simp add: kv)
  also have "\<dots> = (?st2\<lparr>hypo_params := fixed_at (hypo_params ?st2) kvs,
                         steps := row_added (steps ?st2) kvs\<rparr>, None)"
    by (rule Cons.IH [OF d pre])
  also have "\<dots> = (st\<lparr>hypo_params := fixed_at (hypo_params st) (kv # kvs),
                        steps := row_added (steps st) (kv # kvs)\<rparr>, None)"
    using h s by simp
  finally show ?case .
qed

lemma scan_point_cases:
  assumes "distinct (map fst pos)"
    and "\<forall>k \<in> set (map fst pos). hypo_params st k \<noteq> None \<and> steps st k \<noteq> None"
    and "steps st ''llh'' \<noteq> None"
  shows "scan_point ev pos st =
     (if returns_llh ev (fixed_at (hypo_params st) pos)
      then ((point_fixed pos st)\<lparr>steps := row_recorded ev (hypo_params st) (steps st) pos, linked := True\<rparr>, None)
      else (point_fixed pos st,
            Some (case ev (fixed_at (hypo_params st) pos) of
                    Inl e \<Rightarrow> EvaluatorError e
                  | Inr d \<Rightarrow> (case d ''llh'' of None \<Rightarrow> KeyError ''llh'' | Some traj \<Rightarrow> IndexError))))"
proof -
  let ?st0 = "st\<lparr>visited := visited st @ [pos]\<rparr>"
  have fv: "fix_values pos ?st0 =
      (?st0\<lparr>hypo_params := fixed_at (hypo_params ?st0) pos, steps := row_added (steps ?st0) pos\<rparr>,
       None :: 'c error option)"
    by (rule fix_values_ok) (use assms in simp_all)
  have l: "row_added (steps st) pos ''llh'' \<noteq> None"
    using assms(3) by (auto simp: row_added_def split: option.splits)
  then obtain ys where ys: "row_added (steps st) pos ''llh'' = Some ys" by auto
  show ?thesis
    unfolding scan_point_def fv
    by (cases "ev (fixed_at (hypo_params st) pos)")
       (auto simp: returns_llh_def final_llh_def row_recorded_def point_fixed_def ys Let_def
             split: option.splits)
qed

lemma fixed_at_Nil: "fixed_at h [] = h"
  by (simp add: fixed_at_def)

lemma fixed_at_None: "fixed_at h pos k = None \<longleftrightarrow> h k = None"
  by (simp add: fixed_at_def split: option.splits)

lemma row_added_None: "row_added s pos k = None \<longleftrightarrow> s k = None"
  by (simp add: row_added_def split: option.splits)

lemma row_recorded_None: "s k \<noteq> None \<Longrightarrow> row_recorded ev h s pos k \<noteq> None"
  using row_added_None [of s pos k] by (auto simp: row_recorded_def)

lemma scan_point_returns:
  assumes "loop_ready ns h0 st" and "map fst pos = ns" and "returns_llh ev (fixed_at h0 pos)"
  shows "\<exists>st'. scan_point ev pos st = (st', None) \<and> loop_ready ns h0 st' \<and>
           visited st' = visited st @ [pos] \<and> calls st' = calls st @ [fixed_at h0 pos] \<and>
           steps st' = row_recorded ev h0 (steps st) pos \<and> linked st' \<and>
           hypo_params st' = fixed_at (hypo_params st) pos"
proof -
  have eq: "fixed_at (hypo_params st) pos = fixed_at h0 pos"
    using assms(1,2) by (simp add: loop_ready_def)
  have c: "scan_point ev pos st =
     ((point_fixed pos st)\<lparr>steps := row_recorded ev (hypo_params st) (steps st) pos, linked := True\<rparr>, None)"
    using scan_point_cases [of pos st ev] assms by (simp add: loop_ready_def eq)
  have r: "row_recorded ev (hypo_params st) (steps st) pos = row_recorded ev h0 (steps st) pos"
    by (simp add: row_recorded_def eq)
  have inv: "loop_ready ns h0 ((point_fixed pos st)\<lparr>steps := row_recorded ev h0 (steps st) pos, linked := True\<rparr>)"
    unfolding loop_ready_def
  proof (intro conjI allI impI ballI)
    show "distinct ns" using assms(1) by (simp add: loop_ready_def)
  next
    fix k assume "k \<in> set ns"
    then have "hypo_params st k \<noteq> None" using assms(1) by (simp add: loop_ready_def)
    then show "hypo_params ((point_fixed pos st)\<lparr>steps := row_recorded ev h0 (steps st) pos, linked := True\<rparr>) k \<noteq> None"
      using fixed_at_None [of "hypo_params st" pos k] by (simp add: point_fixed_def)
  next
    fix k assume "k \<in> set ns"
    then have "steps st k \<noteq> None" using assms(1) by (simp add: loop_ready_def)
    then show "steps ((point_fixed pos st)\<lparr>steps := row_recorded ev h0 (steps st) pos, linked := True\<rparr>) k \<noteq> None"
      by (simp add: row_recorded_None)
  next
    have "steps st ''llh'' \<noteq> None" using assms(1) by (simp add: loop_ready_def)
    then show "steps ((point_fixed pos st)\<lparr>steps := row_recorded ev h0 (steps st) pos, linked := True\<rparr>) ''llh'' \<noteq> None"
      by (simp add: row_recorded_None)
  next
    fix q :: "(name \<times> 'a) list" assume q: "map fst q = ns"
    then have "fixed_at (fixed_at (hypo_params st) pos) q = fixed_at (hypo_params st) q"
      using assms(2) by (simp add: fixed_at_fixed_at)
    also have "\<dots> = fixed_at h0 q" using assms(1) q by (simp add: loop_ready_def)
    finally show "fixed_at (hypo_params ((point_fixed pos st)\<lparr>steps := row_recorded ev h0 (steps st) pos, linked := True\<rparr>)) q = fixed_at h0 q"
      by (simp add: point_fixed_def)
  qed
  show ?thesis
    using inv by (simp add: c r) (simp add: point_fixed_def eq)
qed

lemma scan_point_raises:
  assumes "loop_ready ns h0 st" and "map fst pos = ns" and "\<not> returns_llh ev (fixed_at h0 pos)"
  shows "\<exists>st'. scan_point ev pos st =
             (st', Some (case ev (fixed_at h0 pos) of
                           Inl e \<Rightarrow> EvaluatorError e
                         | Inr d \<Rightarrow> (case d ''llh'' of None \<Rightarrow> KeyError ''llh'' | Some traj \<Rightarrow> IndexError))) \<and>
           visited st' = visited st @ [pos] \<and> calls st' = calls st @ [fixed_at h0 pos] \<and>
           steps st' = row_added (steps st) pos \<and> linked st' = linked st \<and>
           hypo_params st' = fixed_at (hypo_params st) pos"
proof -
  have eq: "fixed_at (hypo_params st) pos = fixed_at h0 pos"
    using assms(1,2) by (simp add: loop_ready_def)
  show ?thesis
    using scan_point_cases [of pos st ev] assms
    by (simp add: loop_ready_def eq) (simp add: point_fixed_def eq)
qed

lemma scan_loop_returns:
  assumes "loop_ready ns h0 st" and "\<forall>pos \<in> set points. map fst pos = ns"
    and "\<forall>pos \<in> set points. returns_llh ev (fixed_at h0 pos)"
  shows "\<exists>st'. scan_loop ev points st = (st', None) \<and> loop_ready ns h0 st' \<and>
           visited st' = visited st @ points \<and> calls st' = calls st @ map (fixed_at h0) points \<and>
           steps st' = foldl (row_recorded ev h0) (steps st) points \<and>
           linked st' = (linked st \<or> points \<noteq> []) \<and>
           hypo_params st' = fixed_at (hypo_params st) (last ([] # points))"
  using assms
proof (induction points arbitrary: st)
  case Nil
  then show ?case by (simp add: fixed_at_Nil)
next
  case (Cons pos rest)
  from Cons.prems obtain st1 where
    p: "scan_point ev pos st = (st1, None)" and r1: "loop_ready ns h0 st1" and
    v1: "visited st1 = visited st @ [pos]" and c1: "calls st1 = calls st @ [fixed_at h0 pos]" and
    s1: "steps st1 = row_recorded ev h0 (steps st) pos" and l1: "linked st1" and
    h1: "hypo_params st1 = fixed_at (hypo_params st) pos"
    using scan_point_returns [of ns h0 st pos ev] by auto
  from Cons.IH [OF r1] Cons.prems obtain st' where
    l: "scan_loop ev rest st1 = (st', None)" and r': "loop_ready ns h0 st'" and
    v': "visited st' = visited st1 @ rest" and c': "calls st' = calls st1 @ map (fixed_at h0) rest" and
    s': "steps st' = foldl (row_recorded ev h0) (steps st1) rest" and
    l': "linked st' = (linked st1 \<or> rest \<noteq> [])" and
    h': "hypo_params st' = fixed_at (hypo_params st1) (last ([] # rest))"
    by auto
  have hh: "fixed_at (hypo_params st1) (last ([] # rest)) = fixed_at (hypo_params st) (last ([] # pos # rest))"
  proof (cases rest)
    case Nil
    then show ?thesis by (simp add: h1 fixed_at_Nil)
  next
    case (Cons q qs)
    then have "map fst (last rest) = map fst pos" using Cons.prems(2) by simp
    then show ?thesis using Cons by (simp add: h1 fixed_at_fixed_at)
  qed
  show ?case
    using p l r' v' c' s' l' h' hh by (simp add: v1 c1 s1 l1)
qed

lemma scan_loop_append:
  "scan_loop ev (ps @ qs) st =
     (case scan_loop ev ps st of (st1, Some e) \<Rightarrow> (st1, Some e) | (st1, None) \<Rightarrow> scan_loop ev qs st1)"
  by (induction ps arbitrary: st) (auto split: prod.splits option.splits)

lemma scan_loop_stops:
  assumes "loop_ready ns h0 st" and "\<forall>pos \<in> set (ps @ [p]). map fst pos = ns"
    and "\<forall>pos \<in> set ps. returns_llh ev (fixed_at h0 pos)"
    and "\<not> returns_llh ev (fixed_at h0 p)"
  shows "\<exists>st'. scan_loop ev (ps @ p # rest) st =
             (st', Some (case ev (fixed_at h0 p) of
                           Inl e \<Rightarrow> EvaluatorError e
                         | Inr d \<Rightarrow> (case d ''llh'' of None \<Rightarrow> KeyError ''llh'' | Some traj \<Rightarrow> IndexError))) \<and>
           visited st' = visited st @ ps @ [p] \<and> calls st' = calls st @ map (fixed_at h0) (ps @ [p]) \<and>
           steps st' = row_added (foldl (row_recorded ev h0) (steps st) ps) p \<and>
           linked st' = (linked st \<or> ps \<noteq> [])"
proof -
  from scan_loop_returns [of ns h0 st ps ev] assms obtain st1 where
    l: "scan_loop ev ps st = (st1, None)" and r1: "loop_ready ns h0 st1" and
    v1: "visited st1 = visited st @ ps" and c1: "calls st1 = calls st @ map (fixed_at h0) ps" and
    s1: "steps st1 = foldl (row_recorded ev h0) (steps st) ps" and
    l1: "linked st1 = (linked st \<or> ps \<noteq> [])"
    by auto
  from scan_point_raises [OF r1 _ assms(4)] assms(2) obtain st' where
    "scan_point ev p st1 =
             (st', Some (case ev (fixed_at h0 p) of
                           Inl e \<Rightarrow> EvaluatorError e
                         | Inr d \<Rightarrow> (case d ''llh'' of None \<Rightarrow> KeyError ''llh'' | Some traj \<Rightarrow> IndexError)))"
    "visited st' = visited st1 @ [p]" "calls st' = calls st1 @ [fixed_at h0 p]"
    "steps st' = row_added (steps st1) p" "linked st' = linked st1"
    by auto
  then show ?thesis
    by (simp add: scan_loop_append l v1 c1 s1 l1)
qed

lemma set_scan_names: "set (scan_names atm) = fst ` set atm"
  by (simp add: scan_names_def)

lemma distinct_scan_names: "distinct (map fst atm) \<Longrightarrow> distinct (scan_names atm)"
  by (simp add: scan_names_def distinct_map)

lemma sorted_scan_names: "sorted (scan_names atm)"
  by (simp add: scan_names_def)

lemma length_steplist: "length (steplist atm) = length (scan_names atm)"
  by (simp add: steplist_def scan_names_def)

lemma nth_steplist:
  "i < length (scan_names atm) \<Longrightarrow>
   steplist atm ! i = map (\<lambda>step. (scan_names atm ! i, step)) (p_steps (snd (sort_key fst atm ! i)))"
  by (simp add: steplist_def scan_names_def case_prod_beta)

lemma names_of_point:
  assumes "pos \<in> set (product (steplist atm))"
  shows "map fst pos = scan_names atm"
proof (rule nth_equalityI)
  from assms show len: "length (map fst pos) = length (scan_names atm)"
    by (simp add: set_product length_steplist)
  fix i assume "i < length (map fst pos)"
  then have i: "i < length (scan_names atm)" using len by simp
  then have "pos ! i \<in> set (steplist atm ! i)"
    using assms by (simp add: set_product length_steplist)
  then have "fst (pos ! i) = scan_names atm ! i"
    using i by (auto simp: nth_steplist)
  then show "map fst pos ! i = scan_names atm ! i"
    using i len by simp
qed

lemma init_steps_apply:
  "init_steps atm k = (if k = ''llh'' \<or> k \<in> fst ` set atm then Some [] else None)"
  by (induction atm) (force simp: init_steps_def)+

lemma init_state_ready:
  assumes "scan_ready h atm"
  shows "loop_ready (scan_names atm) h (init_state h atm)"
  using assms
  by (auto simp: loop_ready_def scan_ready_def init_state_def init_steps_apply
                 distinct_scan_names set_scan_names list_all_iff)

lemma row_recorded_apply:
  assumes "''llh'' \<notin> set (map fst pos)"
  shows "row_recorded ev h s pos k =
     (if k = ''llh'' then Some (the (s ''llh'') @ [final_llh ev (fixed_at h pos)])
      else if k \<in> set (map fst pos) then map_option (\<lambda>xs. xs @ [the (map_of pos k)]) (s k)
      else s k)"
proof -
  have l: "map_of pos ''llh'' = None"
    using assms by (simp add: map_of_eq_None_iff)
  have n: "k \<notin> set (map fst pos) \<Longrightarrow> map_of pos k = None"
    by (simp add: map_of_eq_None_iff)
  have y: "k \<in> set (map fst pos) \<Longrightarrow> \<exists>v. map_of pos k = Some v"
    using map_of_eq_None_iff [of pos k] by auto
  show ?thesis
  proof (cases "k \<in> set (map fst pos)")
    case True
    with y obtain v where "map_of pos k = Some v" by blast
    with l True show ?thesis by (simp add: row_recorded_def row_added_def)
  next
    case False
    with n have "map_of pos k = None" by simp
    with l False show ?thesis by (simp add: row_recorded_def row_added_def)
  qed
qed

lemma rows_recorded_apply:
  assumes "''llh'' \<notin> set ns" and "\<forall>pos \<in> set points. map fst pos = ns"
    and "s ''llh'' \<noteq> None"
  shows "foldl (row_recorded ev h) s points k =
     (if k = ''llh'' then Some (the (s ''llh'') @ map (\<lambda>pos. final_llh ev (fixed_at h pos)) points)
      else if k \<in> set ns then map_option (\<lambda>xs. xs @ column k points) (s k)
      else s k)"
  using assms(2,3)
proof (induction points arbitrary: s)
  case Nil
  then show ?case by (auto simp: column_def option.map_ident)
next
  case (Cons pos rest)
  have ks: "''llh'' \<notin> set (map fst pos)" using Cons.prems(1) assms(1) by simp
  have ns: "set (map fst pos) = set ns" using Cons.prems(1) by simp
  have l: "row_recorded ev h s pos ''llh'' \<noteq> None"
    using Cons.prems(2) by (rule row_recorded_None)
  have "foldl (row_recorded ev h) s (pos # rest) k = foldl (row_recorded ev h) (row_recorded ev h s pos) rest k"
    by simp
  also have "\<dots> = (if k = ''llh''
       then Some (the (row_recorded ev h s pos ''llh'') @ map (\<lambda>pos. final_llh ev (fixed_at h pos)) rest)
       else if k \<in> set ns then map_option (\<lambda>xs. xs @ column k rest) (row_recorded ev h s pos k)
       else row_recorded ev h s pos k)"
    by (rule Cons.IH) (use Cons.prems l in simp_all)
  also have "\<dots> = (if k = ''llh''
       then Some (the (s ''llh'') @ map (\<lambda>pos. final_llh ev (fixed_at h pos)) (pos # rest))
       else if k \<in> set ns then map_option (\<lambda>xs. xs @ column k (pos # rest)) (s k)
       else s k)"
    unfolding row_recorded_apply [OF ks] ns
    by (cases "s k") (simp_all add: column_def)
  finally show ?case .
qed

lemma rows_from_init:
  assumes "scan_ready h atm" and "\<forall>pos \<in> set points. map fst pos = scan_names atm"
  shows "foldl (row_recorded ev h) (init_steps atm) points = scan_rows ev h (scan_names atm) points"
proof (rule ext)
  fix k
  have l: "''llh'' \<notin> set (scan_names atm)"
    using assms(1) by (auto simp: scan_ready_def set_scan_names list_all_iff)
  show "foldl (row_recorded ev h) (init_steps atm) points k = scan_rows ev h (scan_names atm) points k"
    unfolding rows_recorded_apply [OF l assms(2), of "init_steps atm" ev h k, simplified init_steps_apply, simplified]
    by (auto simp: scan_rows_def init_steps_apply set_scan_names)
qed

subsection \<open>The whole scan\<close>

lemma scan_returns:
  assumes "scan_ready h atm"
    and "\<forall>pos \<in> set (product (steplist atm)). returns_llh ev (fixed_at h pos)"
  shows "\<exists>st. scan ev h atm = (st, None) \<and> visited st = product (steplist atm) \<and>
           calls st = map (fixed_at h) (product (steplist atm)) \<and>
           steps st = scan_rows ev h (scan_names atm) (product (steplist atm)) \<and>
           linked st = (product (steplist atm) \<noteq> []) \<and>
           hypo_params st = fixed_at h (last ([] # product (steplist atm)))"
proof -
  have n: "\<forall>pos \<in> set (product (steplist atm)). map fst pos = scan_names atm"
    by (simp add: names_of_point)
  have r: "foldl (row_recorded ev h) (init_steps atm) (product (steplist atm))
         = scan_rows ev h (scan_names atm) (product (steplist atm))"
    using assms(1) n by (rule rows_from_init)
  from scan_loop_returns [OF init_state_ready [OF assms(1)] n assms(2)]
  obtain st where "scan_loop ev (product (steplist atm)) (init_state h atm) = (st, None)"
    "visited st = visited (init_state h atm) @ product (steplist atm)"
    "calls st = calls (init_state h atm) @ map (fixed_at h) (product (steplist atm))"
    "steps st = foldl (row_recorded ev h) (steps (init_state h atm)) (product (steplist atm))"
    "linked st = (linked (init_state h atm) \<or> product (steplist atm) \<noteq> [])"
    "hypo_params st = fixed_at (hypo_params (init_state h atm)) (last ([] # product (steplist atm)))"
    by blast
  then show ?thesis
    using r by (simp add: scan_def init_state_def)
qed

lemma scan_stops:
  assumes "scan_ready h atm" and "product (steplist atm) = ps @ p # rest"
    and "\<forall>pos \<in> set ps. returns_llh ev (fixed_at h pos)"
    and "\<not> returns_llh ev (fixed_at h p)"
  shows "\<exists>st. scan ev h atm =
             (st, Some (case ev (fixed_at h p) of
                          Inl e \<Rightarrow> EvaluatorError e
                        | Inr d \<Rightarrow> (case d ''llh'' of None \<Rightarrow> KeyError ''llh'' | Some traj \<Rightarrow> IndexError))) \<and>
           visited st = ps @ [p] \<and> calls st = map (fixed_at h) (ps @ [p]) \<and>
           steps st = row_added (scan_rows ev h (scan_names atm) ps) p \<and>
           linked st = (ps \<noteq> [])"
proof -
  have n: "\<forall>pos \<in> set (ps @ [p]). map fst pos = scan_names atm"
    using names_of_point [of _ atm] assms(2) by auto
  then have n': "\<forall>pos \<in> set ps. map fst pos = scan_names atm" by simp
  have r: "foldl (row_recorded ev h) (init_steps atm) ps = scan_rows ev h (scan_names atm) ps"
    using assms(1) n' by (rule rows_from_init)
  from scan_loop_stops [OF init_state_ready [OF assms(1)] n assms(3,4), of rest]
  obtain st where "scan_loop ev (ps @ p # rest) (init_state h atm) =
             (st, Some (case ev (fixed_at h p) of
                          Inl e \<Rightarrow> EvaluatorError e
                        | Inr d \<Rightarrow> (case d ''llh'' of None \<Rightarrow> KeyError ''llh'' | Some traj \<Rightarrow> IndexError)))"
    "visited st = visited (init_state h atm) @ ps @ [p]"
    "calls st = calls (init_state h atm) @ map (fixed_at h) (ps @ [p])"
    "steps st = row_added (foldl (row_recorded ev h) (steps (init_state h atm)) ps) p"
    "linked st = (linked (init_state h atm) \<or> ps \<noteq> [])"
    by blast
  then show ?thesis
    using r by (simp add: scan_def init_state_def assms(2))
qed

lemma lengths_steplist:
  "map length (steplist atm) = map (\<lambda>(name, param). length (p_steps param)) (sort_key fst atm)"
  by (simp add: steplist_def case_prod_beta)

lemma prod_list_insort_key:
  fixes f :: "'a \<Rightarrow> nat"
  shows "prod_list (map f (insort_key g x xs)) = f x * prod_list (map f xs)"
  by (induction xs) simp_all

lemma prod_list_sort_key:
  fixes f :: "'a \<Rightarrow> nat"
  shows "prod_list (map f (sort_key g xs)) = prod_list (map f xs)"
  by (induction xs) (simp_all add: prod_list_insort_key)

lemma length_points:
  "length (product (steplist atm)) = prod_list (map (\<lambda>(name, param). length (p_steps param)) atm)"
  by (simp add: length_product lengths_steplist prod_list_sort_key)

lemma in_Pair_image: "x \<in> (\<lambda>step. (n, step)) ` S \<longleftrightarrow> fst x = n \<and> snd x \<in> S"
  by (cases x) auto

lemma set_points:
  "set (product (steplist atm)) =
     {pos. map fst pos = scan_names atm \<and>
           (\<forall>i < length pos. snd (pos ! i) \<in> set (p_steps (snd (sort_key fst atm ! i))))}"
proof -
  have "pos \<in> set (product (steplist atm)) \<longleftrightarrow>
        map fst pos = scan_names atm \<and>
        (\<forall>i < length pos. snd (pos ! i) \<in> set (p_steps (snd (sort_key fst atm ! i))))" for pos
  proof -
    have "pos \<in> set (product (steplist atm)) \<longleftrightarrow>
          length pos = length (scan_names atm) \<and>
          (\<forall>i < length (scan_names atm). pos ! i \<in> set (steplist atm ! i))"
      by (simp add: set_product length_steplist)
    also have "\<dots> \<longleftrightarrow> length pos = length (scan_names atm) \<and>
          (\<forall>i < length (scan_names atm).
             fst (pos ! i) = scan_names atm ! i \<and>
             snd (pos ! i) \<in> set (p_steps (snd (sort_key fst atm ! i))))"
      by (simp add: nth_steplist in_Pair_image cong: conj_cong)
    also have "\<dots> \<longleftrightarrow> map fst pos = scan_names atm \<and>
          (\<forall>i < length pos. snd (pos ! i) \<in> set (p_steps (snd (sort_key fst atm ! i))))"
      by (auto simp: list_eq_iff_nth_eq)
    finally show ?thesis .
  qed
  then show ?thesis by blast
qed

lemma nth_point:
  assumes "j < length (product (steplist atm))" and "i < length (scan_names atm)"
  shows "product (steplist atm) ! j ! i =
     (scan_names atm ! i,
      p_steps (snd (sort_key fst atm ! i)) !
        (j div prod_list (map (\<lambda>(name, param). length (p_steps param)) (drop (Suc i) (sort_key fst atm)))
           mod length (p_steps (snd (sort_key fst atm ! i)))))"
proof -
  let ?L = "length (p_steps (snd (sort_key fst atm ! i)))"
  let ?M = "prod_list (map (\<lambda>(name, param). length (p_steps param)) (drop (Suc i) (sort_key fst atm)))"
  have i': "i < length (steplist atm)" using assms(2) by (simp add: length_steplist)
  have len: "length (steplist atm ! i) = ?L"
    using assms(2) by (simp add: nth_steplist)
  have dr: "map length (drop (Suc i) (steplist atm)) =
            map (\<lambda>(name, param). length (p_steps param)) (drop (Suc i) (sort_key fst atm))"
    using lengths_steplist [of atm] by (simp add: drop_map [symmetric])
  have "0 < prod_list (map length (steplist atm))"
    using assms(1) by (simp add: length_product)
  moreover have "length (steplist atm ! i) \<in> set (map length (steplist atm))"
    using i' by simp
  ultimately have "0 < length (steplist atm ! i)"
    by (metis gr_zeroI prod_list_zero_iff less_numeral_extra(3))
  then have Lpos: "0 < ?L" using len by simp
  have "product (steplist atm) ! j ! i =
        steplist atm ! i ! (j div prod_list (map length (drop (Suc i) (steplist atm))) mod length (steplist atm ! i))"
    using assms(1) i' by (rule nth_product)
  also have "\<dots> = steplist atm ! i ! (j div ?M mod ?L)"
    by (simp add: dr len)
  also have "\<dots> = (scan_names atm ! i, p_steps (snd (sort_key fst atm ! i)) ! (j div ?M mod ?L))"
    using assms(2) Lpos by (simp add: nth_steplist)
  finally show ?thesis .
qed

lemma dom_scan_rows: "dom (scan_rows ev h ns points) = insert ''llh'' (set ns)"
  by (auto simp: scan_rows_def split: if_splits)

lemma length_scan_rows:
  "k \<in> dom (scan_rows ev h ns points) \<Longrightarrow> length (the (scan_rows ev h ns points k)) = length points"
  by (auto simp: scan_rows_def column_def split: if_splits)

text \<open>
  Claim C1. When the optimizer returns a likelihood at every grid point, the scan visits
  exactly the positions of the Cartesian product of the step sequences, the parameters
  taken in the sorted order of their names: position \<open>j\<close> holds for the \<open>i\<close>-th name the
  step whose index is the \<open>i\<close>-th digit of \<open>j\<close> in the mixed radix of the sequence lengths,
  so the last name varies fastest. The optimizer is called once per position, in that
  order, and the number of positions, of calls and of values under every key of the
  accumulator is the product of the sequence lengths.
\<close>

theorem scan_visits_full_product:
  assumes "scan_ready h atm"
    and "\<forall>pos \<in> set (product (steplist atm)). returns_llh ev (fixed_at h pos)"
  shows "case scan ev h atm of (st, err) \<Rightarrow>
     err = None \<and>
     sorted (scan_names atm) \<and> set (scan_names atm) = fst ` set atm \<and>
     set (visited st) =
       {pos. map fst pos = scan_names atm \<and>
             (\<forall>i < length pos. snd (pos ! i) \<in> set (p_steps (snd (sort_key fst atm ! i))))} \<and>
     (\<forall>j < length (visited st). \<forall>i < length (scan_names atm).
        visited st ! j ! i =
          (scan_names atm ! i,
           p_steps (snd (sort_key fst atm ! i)) !
             (j div prod_list (map (\<lambda>(name, param). length (p_steps param))
                                   (drop (Suc i) (sort_key fst atm)))
                mod length (p_steps (snd (sort_key fst atm ! i)))))) \<and>
     length (visited st) = prod_list (map (\<lambda>(name, param). length (p_steps param)) atm) \<and>
     calls st = map (fixed_at h) (visited st) \<and>
     dom (steps st) = insert ''llh'' (fst ` set atm) \<and>
     (\<forall>k \<in> dom (steps st).
        length (the (steps st k)) = prod_list (map (\<lambda>(name, param). length (p_steps param)) atm))"
proof -
  from scan_returns [OF assms] obtain st where
    s: "scan ev h atm = (st, None)" and v: "visited st = product (steplist atm)" and
    c: "calls st = map (fixed_at h) (product (steplist atm))" and
    r: "steps st = scan_rows ev h (scan_names atm) (product (steplist atm))"
    by blast
  have 1: "sorted (scan_names atm)" by (rule sorted_scan_names)
  have 2: "set (scan_names atm) = fst ` set atm" by (rule set_scan_names)
  have 3: "set (visited st) =
       {pos. map fst pos = scan_names atm \<and>
             (\<forall>i < length pos. snd (pos ! i) \<in> set (p_steps (snd (sort_key fst atm ! i))))}"
    unfolding v by (rule set_points)
  have 4: "\<forall>j < length (visited st). \<forall>i < length (scan_names atm).
        visited st ! j ! i =
          (scan_names atm ! i,
           p_steps (snd (sort_key fst atm ! i)) !
             (j div prod_list (map (\<lambda>(name, param). length (p_steps param))
                                   (drop (Suc i) (sort_key fst atm)))
                mod length (p_steps (snd (sort_key fst atm ! i)))))"
    unfolding v using nth_point by blast
  have 5: "length (visited st) = prod_list (map (\<lambda>(name, param). length (p_steps param)) atm)"
    unfolding v by (rule length_points)
  have 6: "calls st = map (fixed_at h) (visited st)" by (simp add: c v)
  have 7: "dom (steps st) = insert ''llh'' (fst ` set atm)"
    by (simp add: r dom_scan_rows set_scan_names)
  have 8: "\<forall>k \<in> dom (steps st).
        length (the (steps st k)) = prod_list (map (\<lambda>(name, param). length (p_steps param)) atm)"
    unfolding r using length_scan_rows length_points by metis
  show ?thesis
    unfolding s using 1 2 3 4 5 6 7 8 by simp
qed

theorem scan_visits_full_product_witness:
  "scan_ready ex_hypo ex_atm \<and>
   list_all (\<lambda>pos. returns_llh ex_eval (fixed_at ex_hypo pos)) (product (steplist ex_atm)) \<and>
   snd (scan ex_eval ex_hypo ex_atm) = None \<and>
   length (visited (fst (scan ex_eval ex_hypo ex_atm))) = 6 \<and>
   length (calls (fst (scan ex_eval ex_hypo ex_atm))) = 6"
proof -
  have a: "scan_ready ex_hypo ex_atm"
    by (simp add: scan_ready_def ex_hypo_def ex_atm_def)
  have b: "\<forall>pos \<in> set (product (steplist ex_atm)). returns_llh ex_eval (fixed_at ex_hypo pos)"
    by (simp add: returns_llh_def ex_eval_def)
  have c: "prod_list (map (\<lambda>(name, param). length (p_steps param)) ex_atm) = 6"
    by (simp add: ex_atm_def)
  from scan_visits_full_product [OF a b] show ?thesis
    using a b by (cases "scan ex_eval ex_hypo ex_atm") (simp add: c list_all_iff)
qed

subsection \<open>The scan of \<^verbatim>\<open>theta23\<close> and \<^verbatim>\<open>deltam31\<close>\<close>

lemma example_points:
  fixes pt pd :: "(real, 'z) param_scheme"
  assumes "atm = [(''theta23'', pt), (''deltam31'', pd)] \<or> atm = [(''deltam31'', pd), (''theta23'', pt)]"
    and "p_steps pt = [0.35, 0.5, 0.65]" and "p_steps pd = [0.002, 0.003]"
  shows "product (steplist atm) =
     [[(''deltam31'', 0.002), (''theta23'', 0.35)], [(''deltam31'', 0.002), (''theta23'', 0.5)],
      [(''deltam31'', 0.002), (''theta23'', 0.65)], [(''deltam31'', 0.003), (''theta23'', 0.35)],
      [(''deltam31'', 0.003), (''theta23'', 0.5)], [(''deltam31'', 0.003), (''theta23'', 0.65)]]"
  using assms by (auto simp: steplist_def product_eq)

lemma example_names:
  assumes "atm = [(''theta23'', pt), (''deltam31'', pd)] \<or> atm = [(''deltam31'', pd), (''theta23'', pt)]"
  shows "scan_names atm = [''deltam31'', ''theta23'']"
  using assms by (auto simp: scan_names_def)

text \<open>
  Claim C2, as amended. With \<^verbatim>\<open>theta23\<close> taking the values 0.35, 0.5, 0.65 and
  \<^verbatim>\<open>deltam31\<close> the values 0.002, 0.003, the scan evaluates six points, and since
  \<^verbatim>\<open>sorted\<close> puts \<^verbatim>\<open>deltam31\<close> before \<^verbatim>\<open>theta23\<close> it is \<^verbatim>\<open>theta23\<close> that varies
  fastest: (theta23, deltam31) is (0.35, 0.002), (0.5, 0.002), (0.65, 0.002), (0.35, 0.003),
  (0.5, 0.003), (0.65, 0.003). The accumulator has the keys \<^verbatim>\<open>theta23\<close>, \<^verbatim>\<open>deltam31\<close> and
  \<^verbatim>\<open>llh\<close>, each with six values.
\<close>

theorem example_scan_order:
  fixes pt pd :: "(real, 'z) param_scheme"
  assumes "atm = [(''theta23'', pt), (''deltam31'', pd)] \<or> atm = [(''deltam31'', pd), (''theta23'', pt)]"
    and "p_steps pt = [0.35, 0.5, 0.65]" and "p_steps pd = [0.002, 0.003]"
    and "h ''theta23'' \<noteq> None" and "h ''deltam31'' \<noteq> None"
    and "\<forall>pos \<in> set (product (steplist atm)). returns_llh ev (fixed_at h pos)"
  shows "case scan ev h atm of (st, err) \<Rightarrow>
     err = None \<and>
     visited st =
       [[(''deltam31'', 0.002), (''theta23'', 0.35)], [(''deltam31'', 0.002), (''theta23'', 0.5)],
        [(''deltam31'', 0.002), (''theta23'', 0.65)], [(''deltam31'', 0.003), (''theta23'', 0.35)],
        [(''deltam31'', 0.003), (''theta23'', 0.5)], [(''deltam31'', 0.003), (''theta23'', 0.65)]] \<and>
     map (\<lambda>c. (map_option p_value (c ''theta23''), map_option p_value (c ''deltam31''))) (calls st) =
       [(Some 0.35, Some 0.002), (Some 0.5, Some 0.002), (Some 0.65, Some 0.002),
        (Some 0.35, Some 0.003), (Some 0.5, Some 0.003), (Some 0.65, Some 0.003)] \<and>
     dom (steps st) = {''theta23'', ''deltam31'', ''llh''} \<and>
     steps st ''theta23'' = Some [0.35, 0.5, 0.65, 0.35, 0.5, 0.65] \<and>
     steps st ''deltam31'' = Some [0.002, 0.002, 0.002, 0.003, 0.003, 0.003] \<and>
     (\<exists>l. steps st ''llh'' = Some l \<and> length l = 6)"
proof -
  have ready: "scan_ready h atm"
    using assms(1,4,5) by (auto simp: scan_ready_def)
  note pts = example_points [OF assms(1,2,3)]
  note nms = example_names [OF assms(1)]
  from scan_returns [OF ready assms(6)] obtain st where
    s: "scan ev h atm = (st, None)" and v: "visited st = product (steplist atm)" and
    c: "calls st = map (fixed_at h) (product (steplist atm))" and
    r: "steps st = scan_rows ev h (scan_names atm) (product (steplist atm))"
    by blast
  have 1: "map (\<lambda>c. (map_option p_value (c ''theta23''), map_option p_value (c ''deltam31''))) (calls st) =
       [(Some 0.35, Some 0.002), (Some 0.5, Some 0.002), (Some 0.65, Some 0.002),
        (Some 0.35, Some 0.003), (Some 0.5, Some 0.003), (Some 0.65, Some 0.003)]"
    using assms(4,5) by (auto simp: c pts fixed_at_def)
  have 2: "dom (steps st) = {''theta23'', ''deltam31'', ''llh''}"
    by (auto simp: r dom_scan_rows nms)
  have 3: "steps st ''theta23'' = Some [0.35, 0.5, 0.65, 0.35, 0.5, 0.65]"
    by (simp add: r scan_rows_def nms pts column_def)
  have 4: "steps st ''deltam31'' = Some [0.002, 0.002, 0.002, 0.003, 0.003, 0.003]"
    by (simp add: r scan_rows_def nms pts column_def)
  have 5: "\<exists>l. steps st ''llh'' = Some l \<and> length l = 6"
    by (simp add: r scan_rows_def pts)
  show ?thesis
    unfolding s using 1 2 3 4 5 by (simp add: v pts)
qed

theorem example_scan_order_witness:
  "(ex_atm = [(''theta23'', snd (ex_atm ! 0)), (''deltam31'', snd (ex_atm ! 1))]) \<and>
   p_steps (snd (ex_atm ! 0)) = [0.35, 0.5, 0.65] \<and> p_steps (snd (ex_atm ! 1)) = [0.002, 0.003] \<and>
   ex_hypo ''theta23'' \<noteq> None \<and> ex_hypo ''deltam31'' \<noteq> None \<and>
   list_all (\<lambda>pos. returns_llh ex_eval (fixed_at ex_hypo pos)) (product (steplist ex_atm)) \<and>
   snd (scan ex_eval ex_hypo ex_atm) = None \<and>
   steps (fst (scan ex_eval ex_hypo ex_atm)) ''theta23'' = Some [0.35, 0.5, 0.65, 0.35, 0.5, 0.65] \<and>
   steps (fst (scan ex_eval ex_hypo ex_atm)) ''deltam31'' =
     Some [0.002, 0.002, 0.002, 0.003, 0.003, 0.003]"
proof -
  have a: "ex_atm = [(''theta23'', snd (ex_atm ! 0)), (''deltam31'', snd (ex_atm ! 1))] \<or>
           ex_atm = [(''deltam31'', snd (ex_atm ! 1)), (''theta23'', snd (ex_atm ! 0))]"
    by (simp add: ex_atm_def)
  have b: "p_steps (snd (ex_atm ! 0)) = [0.35, 0.5, 0.65]" by (simp add: ex_atm_def)
  have c: "p_steps (snd (ex_atm ! 1)) = [0.002, 0.003]" by (simp add: ex_atm_def)
  have d: "ex_hypo ''theta23'' \<noteq> None" by (simp add: ex_hypo_def ex_atm_def)
  have e: "ex_hypo ''deltam31'' \<noteq> None" by (simp add: ex_hypo_def ex_atm_def)
  have f: "\<forall>pos \<in> set (product (steplist ex_atm)). returns_llh ex_eval (fixed_at ex_hypo pos)"
    by (simp add: returns_llh_def ex_eval_def)
  from example_scan_order [OF a b c d e f] show ?thesis
    using b c d e f
    by (cases "scan ex_eval ex_hypo ex_atm") (simp add: list_all_iff, simp add: ex_atm_def)
qed

text \<open>
  The order claim C2 states, with \<^verbatim>\<open>deltam31\<close> varying fastest, is not the order in which
  the optimizer is called.
\<close>

theorem example_scan_order_counterexample:
  "map (\<lambda>c. (map_option p_value (c ''theta23''), map_option p_value (c ''deltam31'')))
       (calls (fst (scan ex_eval ex_hypo ex_atm))) \<noteq>
   [(Some 0.35, Some 0.002), (Some 0.35, Some 0.003), (Some 0.5, Some 0.002),
    (Some 0.5, Some 0.003), (Some 0.65, Some 0.002), (Some 0.65, Some 0.003)]"
proof -
  have a: "ex_atm = [(''theta23'', snd (ex_atm ! 0)), (''deltam31'', snd (ex_atm ! 1))] \<or>
           ex_atm = [(''deltam31'', snd (ex_atm ! 1)), (''theta23'', snd (ex_atm ! 0))]"
    by (simp add: ex_atm_def)
  have b: "p_steps (snd (ex_atm ! 0)) = [0.35, 0.5, 0.65]" by (simp add: ex_atm_def)
  have c: "p_steps (snd (ex_atm ! 1)) = [0.002, 0.003]" by (simp add: ex_atm_def)
  note pts = example_points [OF a b c]
  have ready: "scan_ready ex_hypo ex_atm"
    by (simp add: scan_ready_def ex_hypo_def ex_atm_def)
  have f: "\<forall>pos \<in> set (product (steplist ex_atm)). returns_llh ex_eval (fixed_at ex_hypo pos)"
    by (simp add: returns_llh_def ex_eval_def)
  from scan_returns [OF ready f] obtain st where
    s: "scan ex_eval ex_hypo ex_atm = (st, None)" and
    c: "calls st = map (fixed_at ex_hypo) (product (steplist ex_atm))"
    by blast
  show ?thesis
    unfolding s fst_conv c pts by (simp add: fixed_at_def ex_hypo_def ex_atm_def)
qed

subsection \<open>Scans with no point, and with no parameter\<close>

lemma product_empty_pool:
  assumes "[] \<in> set pools"
  shows "product pools = []"
proof -
  have "0 \<in> set (map length pools)" using assms by force
  then have "prod_list (map length pools) = 0" by (simp add: prod_list_zero_iff)
  then show ?thesis using length_product [of pools] by simp
qed

lemma no_points:
  assumes "\<exists>(k, p) \<in> set atm. p_steps p = []"
  shows "product (steplist atm) = []"
proof -
  from assms obtain k p where "(k, p) \<in> set atm" "p_steps p = []" by auto
  then have "(k, p) \<in> set (sort_key fst atm)" by simp
  then have "map (\<lambda>step. (k, step)) (p_steps p) \<in> set (steplist atm)"
    unfolding steplist_def by force
  then have "[] \<in> set (steplist atm)" using \<open>p_steps p = []\<close> by simp
  then show ?thesis by (rule product_empty_pool)
qed

lemma scan_no_parameter:
  assumes "returns_llh ev h"
  shows "scan ev h [] =
     (\<lparr>hypo_params = h, steps = [''llh'' \<mapsto> [final_llh ev h]], linked = True,
       visited = [[]], calls = [h]\<rparr>, None)"
  using assms
  by (auto simp: scan_def steplist_def product_def init_state_def init_steps_def scan_point_def
                 returns_llh_def final_llh_def split: sum.splits option.splits)

text \<open>
  Claim C6, as amended. When the step sequence of a scanned parameter is empty the product
  has no position: the scan ends without an error, the optimizer is never called, and
  every sequence of the accumulator stays empty. When there is no scanned parameter the
  scan is not refused either: it ends without an error after one call of the optimizer.
  No \<^verbatim>\<open>EmptyScanError\<close> is raised.
\<close>

theorem empty_sequence_scans_nothing:
  fixes h :: "name \<rightharpoonup> ('v, 'z) param_scheme"
  shows "((\<exists>(k, p) \<in> set atm. p_steps p = []) \<longrightarrow>
            scan ev h atm = (init_state h atm, None) \<and>
            calls (init_state h atm) = [] \<and> visited (init_state h atm) = [] \<and>
            (\<forall>k \<in> dom (steps (init_state h atm)). steps (init_state h atm) k = Some [])) \<and>
         (returns_llh ev h \<longrightarrow>
            snd (scan ev h []) = None \<and> length (calls (fst (scan ev h []))) = 1)"
proof (intro conjI impI)
  assume e: "\<exists>(k, p) \<in> set atm. p_steps p = []"
  show "scan ev h atm = (init_state h atm, None)"
    using no_points [OF e] by (simp add: scan_def)
  show "calls (init_state h atm) = []" "visited (init_state h atm) = []"
    by (simp_all add: init_state_def)
  show "\<forall>k \<in> dom (steps (init_state h atm)). steps (init_state h atm) k = Some []"
    by (auto simp: init_state_def init_steps_apply split: if_splits)
next
  assume r: "returns_llh ev h"
  show "snd (scan ev h []) = None" "length (calls (fst (scan ev h []))) = 1"
    by (simp_all add: scan_no_parameter [OF r])
qed

theorem empty_sequence_scans_nothing_witness:
  "list_ex (\<lambda>(k, p). p_steps p = []) empty_atm \<and> returns_llh ex_eval ex_hypo \<and>
   scan ex_eval ex_hypo empty_atm = (init_state ex_hypo empty_atm, None) \<and>
   calls (fst (scan ex_eval ex_hypo empty_atm)) = [] \<and>
   length (calls (fst (scan ex_eval ex_hypo []))) = 1"
proof -
  have a: "\<exists>(k, p) \<in> set empty_atm. p_steps p = []" by (simp add: empty_atm_def)
  have b: "returns_llh ex_eval ex_hypo" by (simp add: returns_llh_def ex_eval_def)
  from empty_sequence_scans_nothing [of empty_atm ex_eval ex_hypo] a b show ?thesis
    by (simp add: list_ex_iff)
qed

text \<open>
  Claim C6 as stated fails: a scan with an empty step sequence ends normally, without any
  error, and a scan of no parameter ends normally after one call of the optimizer.
\<close>

theorem empty_scan_counterexample:
  "snd (scan ex_eval ex_hypo empty_atm) = None \<and>
   snd (scan ex_eval ex_hypo []) = None \<and>
   length (calls (fst (scan ex_eval ex_hypo []))) = 1"
proof -
  have a: "product (steplist empty_atm) = []"
    by (rule no_points) (simp add: empty_atm_def)
  have b: "returns_llh ex_eval ex_hypo" by (simp add: returns_llh_def ex_eval_def)
  show ?thesis
    by (simp add: scan_no_parameter [OF b]) (simp add: scan_def a)
qed

text \<open>
  Claim C10. With no parameter to scan the product of no sequence is the single empty
  position: nothing is written into the parameters, the optimizer is called exactly once,
  on the parameters as they are, no error is raised, and the accumulator has the one key
  \<^verbatim>\<open>llh\<close> with one value, the last likelihood of the trajectory returned.
\<close>

theorem no_parameter_one_point:
  fixes h :: "name \<rightharpoonup> ('v, 'z) param_scheme"
  assumes "returns_llh ev h"
  shows "scan ev h [] =
     (\<lparr>hypo_params = h, steps = [''llh'' \<mapsto> [final_llh ev h]], linked = True,
       visited = [[]], calls = [h]\<rparr>, None) \<and>
     product (steplist ([] :: (name \<times> ('v, 'z) param_scheme) list)) = [[]] \<and>
     dom [''llh'' \<mapsto> [final_llh ev h]] = {''llh''}"
  using scan_no_parameter [OF assms] by (simp add: steplist_def product_def)

theorem no_parameter_one_point_witness:
  "returns_llh ex_eval ex_hypo \<and>
   calls (fst (scan ex_eval ex_hypo [])) = [ex_hypo] \<and>
   steps (fst (scan ex_eval ex_hypo [])) = [''llh'' \<mapsto> [2]] \<and>
   snd (scan ex_eval ex_hypo []) = None"
proof -
  have a: "returns_llh ex_eval ex_hypo" by (simp add: returns_llh_def ex_eval_def)
  have b: "final_llh ex_eval ex_hypo = 2" by (simp add: final_llh_def ex_eval_def)
  from no_parameter_one_point [OF a] show ?thesis using a by (simp add: b)
qed

subsection \<open>What the optimizer is called with\<close>

lemma scan_loop_trace:
  assumes "loop_ready ns h0 st" and "\<forall>pos \<in> set points. map fst pos = ns"
  shows "\<exists>n \<le> length points.
           calls (fst (scan_loop ev points st)) = calls st @ map (fixed_at h0) (take n points) \<and>
           hypo_params (fst (scan_loop ev points st)) =
             fixed_at (hypo_params st) (last ([] # take n points))"
  using assms
proof (induction points arbitrary: st)
  case Nil
  then show ?case by (simp add: fixed_at_Nil)
next
  case (Cons pos rest)
  have k: "map fst pos = ns" using Cons.prems(2) by simp
  show ?case
  proof (cases "returns_llh ev (fixed_at h0 pos)")
    case True
    from scan_point_returns [OF Cons.prems(1) k True] obtain st1 where
      p: "scan_point ev pos st = (st1, None)" and r1: "loop_ready ns h0 st1" and
      c1: "calls st1 = calls st @ [fixed_at h0 pos]" and
      h1: "hypo_params st1 = fixed_at (hypo_params st) pos"
      by blast
    from Cons.IH [OF r1] Cons.prems(2) obtain n where
      n: "n \<le> length rest" and
      c: "calls (fst (scan_loop ev rest st1)) = calls st1 @ map (fixed_at h0) (take n rest)" and
      h: "hypo_params (fst (scan_loop ev rest st1)) = fixed_at (hypo_params st1) (last ([] # take n rest))"
      by auto
    have hh: "fixed_at (hypo_params st1) (last ([] # take n rest)) =
              fixed_at (hypo_params st) (last ([] # take (Suc n) (pos # rest)))"
    proof (cases "take n rest = []")
      case True
      then show ?thesis by (simp add: h1 fixed_at_Nil)
    next
      case False
      then have "last (take n rest) \<in> set rest"
        by (meson in_set_takeD last_in_set)
      then have "map fst (last (take n rest)) = map fst pos" using Cons.prems(2) by simp
      then show ?thesis using False by (simp add: h1 fixed_at_fixed_at)
    qed
    have "Suc n \<le> length (pos # rest)" using n by simp
    moreover have "calls (fst (scan_loop ev (pos # rest) st)) =
        calls st @ map (fixed_at h0) (take (Suc n) (pos # rest))"
      by (simp add: p c c1)
    moreover have "hypo_params (fst (scan_loop ev (pos # rest) st)) =
        fixed_at (hypo_params st) (last ([] # take (Suc n) (pos # rest)))"
      using h hh by (simp add: p)
    ultimately show ?thesis by blast
  next
    case False
    from scan_point_raises [OF Cons.prems(1) k False] obtain st1 e where
      p: "scan_point ev pos st = (st1, Some e)" and
      c1: "calls st1 = calls st @ [fixed_at h0 pos]" and
      h1: "hypo_params st1 = fixed_at (hypo_params st) pos"
      by blast
    have "Suc 0 \<le> length (pos # rest)" by simp
    moreover have "calls (fst (scan_loop ev (pos # rest) st)) =
        calls st @ map (fixed_at h0) (take (Suc 0) (pos # rest))"
      by (simp add: p c1)
    moreover have "hypo_params (fst (scan_loop ev (pos # rest) st)) =
        fixed_at (hypo_params st) (last ([] # take (Suc 0) (pos # rest)))"
      by (simp add: p h1)
    ultimately show ?thesis by blast
  qed
qed

lemma scan_trace:
  assumes "scan_ready h atm"
  shows "\<exists>n \<le> length (product (steplist atm)).
           calls (fst (scan ev h atm)) = map (fixed_at h) (take n (product (steplist atm))) \<and>
           hypo_params (fst (scan ev h atm)) = fixed_at h (last ([] # take n (product (steplist atm))))"
proof -
  have n: "\<forall>pos \<in> set (product (steplist atm)). map fst pos = scan_names atm"
    by (simp add: names_of_point)
  from scan_loop_trace [OF init_state_ready [OF assms] n, of ev]
  obtain m where "m \<le> length (product (steplist atm))"
    "calls (fst (scan_loop ev (product (steplist atm)) (init_state h atm))) =
       calls (init_state h atm) @ map (fixed_at h) (take m (product (steplist atm)))"
    "hypo_params (fst (scan_loop ev (product (steplist atm)) (init_state h atm))) =
       fixed_at (hypo_params (init_state h atm)) (last ([] # take m (product (steplist atm))))"
    by blast
  moreover have "calls (init_state h atm) = []" "hypo_params (init_state h atm) = h"
    by (simp_all add: init_state_def)
  ultimately show ?thesis
    unfolding scan_def by (intro exI [of _ m]) (simp only: append_Nil simp_thms)
qed

lemma fixed_at_flag: "map_option p_fixed (fixed_at h pos k) = map_option p_fixed (h k)"
  by (cases "h k") (simp_all add: fixed_at_def split: option.splits)

lemma fixed_at_value:
  assumes "distinct (map fst pos)" and "(k, v) \<in> set pos" and "h k \<noteq> None"
  shows "map_option p_value (fixed_at h pos k) = Some v"
proof -
  have "map_of pos k = Some v" using assms(1,2) by simp
  then show ?thesis using assms(3) by (auto simp: fixed_at_def)
qed

lemma fixed_at_other:
  assumes "k \<notin> fst ` set pos"
  shows "fixed_at h pos k = h k"
proof -
  have "map_of pos k = None" using assms by (simp add: map_of_eq_None_iff)
  then show ?thesis by (simp add: fixed_at_def)
qed

lemma call_facts:
  assumes "scan_ready h atm" and "j < length (calls (fst (scan ev h atm)))"
  shows "calls (fst (scan ev h atm)) ! j = fixed_at h (product (steplist atm) ! j)"
    and "fst ` set (product (steplist atm) ! j) = fst ` set atm"
    and "\<forall>(k, v) \<in> set (product (steplist atm) ! j).
           map_option p_value ((calls (fst (scan ev h atm)) ! j) k) = Some v"
    and "\<forall>k. k \<notin> fst ` set atm \<longrightarrow> (calls (fst (scan ev h atm)) ! j) k = h k"
    and "length (calls (fst (scan ev h atm))) \<le> length (product (steplist atm))"
proof -
  let ?pts = "product (steplist atm)"
  from scan_trace [OF assms(1), of ev] obtain n where
    n: "n \<le> length ?pts" and c: "calls (fst (scan ev h atm)) = map (fixed_at h) (take n ?pts)"
    by blast
  have len: "length (calls (fst (scan ev h atm))) = n" using n by (simp add: c)
  then have j: "j < n" using assms(2) by simp
  show "length (calls (fst (scan ev h atm))) \<le> length ?pts" using n len by simp
  have d: "distinct (scan_names atm)"
    using assms(1) by (simp add: scan_ready_def distinct_scan_names)
  have in_pts: "?pts ! j \<in> set ?pts" using j n by simp
  then have names: "map fst (?pts ! j) = scan_names atm" by (rule names_of_point)
  show cj: "calls (fst (scan ev h atm)) ! j = fixed_at h (?pts ! j)"
    using j n by (simp add: c)
  show keys: "fst ` set (?pts ! j) = fst ` set atm"
    using names set_scan_names [of atm] by (metis set_map)
  have vals: "map_option p_value (fixed_at h (?pts ! j) k) = Some v"
    if kv: "(k, v) \<in> set (?pts ! j)" for k v
  proof (rule fixed_at_value)
    show "distinct (map fst (?pts ! j))" using names d by simp
    show "(k, v) \<in> set (?pts ! j)" by (rule kv)
    have "k \<in> fst ` set atm" using kv keys by force
    then show "h k \<noteq> None" using assms(1) by (auto simp: scan_ready_def list_all_iff)
  qed
  then show "\<forall>(k, v) \<in> set (?pts ! j).
           map_option p_value ((calls (fst (scan ev h atm)) ! j) k) = Some v"
    using cj by auto
  show "\<forall>k. k \<notin> fst ` set atm \<longrightarrow> (calls (fst (scan ev h atm)) ! j) k = h k"
    using keys cj by (simp add: fixed_at_other)
qed

lemma calls_bounded:
  assumes "scan_ready h atm"
  shows "length (calls (fst (scan ev h atm))) \<le> length (product (steplist atm))"
  using scan_trace [OF assms, of ev] by auto

text \<open>
  Claim C8. Whatever the optimizer did at the earlier points, it is called for the
  \<open>j\<close>-th time with the parameters the scan started from in which the values of the
  \<open>j\<close>-th position are written: the position names every scanned parameter, each of them
  has the value of this position, and the parameters that are not scanned are as they were
  before the scan. So nothing of an earlier position is left in what the optimizer sees.
\<close>

theorem call_determined_by_point:
  assumes "scan_ready h atm"
  shows "length (calls (fst (scan ev h atm))) \<le> length (product (steplist atm)) \<and>
     (\<forall>j < length (calls (fst (scan ev h atm))).
        calls (fst (scan ev h atm)) ! j = fixed_at h (product (steplist atm) ! j) \<and>
        fst ` set (product (steplist atm) ! j) = fst ` set atm \<and>
        (\<forall>(k, v) \<in> set (product (steplist atm) ! j).
           map_option p_value ((calls (fst (scan ev h atm)) ! j) k) = Some v) \<and>
        (\<forall>k. k \<notin> fst ` set atm \<longrightarrow> (calls (fst (scan ev h atm)) ! j) k = h k))"
proof (intro conjI allI impI)
  show "length (calls (fst (scan ev h atm))) \<le> length (product (steplist atm))"
    by (rule calls_bounded [OF assms])
next
  fix j assume j: "j < length (calls (fst (scan ev h atm)))"
  show "calls (fst (scan ev h atm)) ! j = fixed_at h (product (steplist atm) ! j)"
    by (rule call_facts(1) [OF assms j])
  show "fst ` set (product (steplist atm) ! j) = fst ` set atm"
    by (rule call_facts(2) [OF assms j])
  show "\<forall>(k, v) \<in> set (product (steplist atm) ! j).
           map_option p_value ((calls (fst (scan ev h atm)) ! j) k) = Some v"
    by (rule call_facts(3) [OF assms j])
  fix k assume "k \<notin> fst ` set atm"
  then show "(calls (fst (scan ev h atm)) ! j) k = h k"
    using call_facts(4) [OF assms j] by blast
qed

theorem call_determined_by_point_witness:
  "scan_ready ex_hypo ex_atm \<and>
   length (calls (fst (scan ex_eval ex_hypo ex_atm))) = 6 \<and>
   calls (fst (scan ex_eval ex_hypo ex_atm)) ! 4 = fixed_at ex_hypo (product (steplist ex_atm) ! 4) \<and>
   product (steplist ex_atm) ! 4 = [(''deltam31'', 0.003), (''theta23'', 0.5)] \<and>
   map_option p_value ((calls (fst (scan ex_eval ex_hypo ex_atm)) ! 4) ''theta23'') = Some 0.5 \<and>
   map_option p_value ((calls (fst (scan ex_eval ex_hypo ex_atm)) ! 4) ''deltam31'') = Some 0.003"
proof -
  have a: "scan_ready ex_hypo ex_atm"
    by (simp add: scan_ready_def ex_hypo_def ex_atm_def)
  have b: "\<forall>pos \<in> set (product (steplist ex_atm)). returns_llh ex_eval (fixed_at ex_hypo pos)"
    by (simp add: returns_llh_def ex_eval_def)
  have pts: "product (steplist ex_atm) =
     [[(''deltam31'', 0.002), (''theta23'', 0.35)], [(''deltam31'', 0.002), (''theta23'', 0.5)],
      [(''deltam31'', 0.002), (''theta23'', 0.65)], [(''deltam31'', 0.003), (''theta23'', 0.35)],
      [(''deltam31'', 0.003), (''theta23'', 0.5)], [(''deltam31'', 0.003), (''theta23'', 0.65)]]"
    by (simp add: ex_atm_def steplist_def product_eq)
  from scan_returns [OF a b] have len: "length (calls (fst (scan ex_eval ex_hypo ex_atm))) = 6"
    by (auto simp: pts)
  from call_determined_by_point [OF a, of ex_eval]
  have "\<forall>j < length (calls (fst (scan ex_eval ex_hypo ex_atm))).
          calls (fst (scan ex_eval ex_hypo ex_atm)) ! j = fixed_at ex_hypo (product (steplist ex_atm) ! j)"
    by blast
  moreover have "4 < length (calls (fst (scan ex_eval ex_hypo ex_atm)))" by (simp add: len)
  ultimately have f: "calls (fst (scan ex_eval ex_hypo ex_atm)) ! 4 =
      fixed_at ex_hypo (product (steplist ex_atm) ! 4)"
    by blast
  have g: "product (steplist ex_atm) ! 4 = [(''deltam31'', 0.003), (''theta23'', 0.5)]"
    by (simp add: pts)
  have v: "map_option p_value (fixed_at ex_hypo [(''deltam31'', 0.003), (''theta23'', 0.5)] ''theta23'') = Some 0.5"
    "map_option p_value (fixed_at ex_hypo [(''deltam31'', 0.003), (''theta23'', 0.5)] ''deltam31'') = Some 0.003"
    by (simp_all add: fixed_at_def ex_hypo_def ex_atm_def)
  show ?thesis
    using a len f v by (simp only: g simp_thms)
qed

text \<open>
  Claim C7, as amended. The scan does not look at the \<^verbatim>\<open>fixed\<close> entries and does not write
  them: at every call of the optimizer and after the scan each parameter has the
  \<^verbatim>\<open>fixed\<close> entry it had before the loop, and whether the scan ends without an error does
  not depend on these entries. What an iteration writes before the optimizer is called is
  the \<^verbatim>\<open>value\<close> of every scanned parameter.
\<close>

theorem scan_keeps_fixed_flags:
  assumes "scan_ready h atm"
  shows "case scan ev h atm of (st, err) \<Rightarrow>
     (\<forall>k. map_option p_fixed (hypo_params st k) = map_option p_fixed (h k)) \<and>
     list_all (\<lambda>c. \<forall>k. map_option p_fixed (c k) = map_option p_fixed (h k)) (calls st) \<and>
     (\<forall>j < length (calls st). \<forall>(k, v) \<in> set (product (steplist atm) ! j).
        map_option p_value ((calls st ! j) k) = Some v) \<and>
     ((\<forall>pos \<in> set (product (steplist atm)). returns_llh ev (fixed_at h pos)) \<longrightarrow>
        err = None \<and> length (calls st) = length (product (steplist atm)))"
proof -
  obtain st err where s: "scan ev h atm = (st, err)" by (cases "scan ev h atm")
  from scan_trace [OF assms, of ev] obtain n where
    n: "n \<le> length (product (steplist atm))" and
    c: "calls st = map (fixed_at h) (take n (product (steplist atm)))" and
    hp: "hypo_params st = fixed_at h (last ([] # take n (product (steplist atm))))"
    by (auto simp: s)
  have 1: "\<forall>k. map_option p_fixed (hypo_params st k) = map_option p_fixed (h k)"
    by (simp add: hp fixed_at_flag)
  have 2: "list_all (\<lambda>c. \<forall>k. map_option p_fixed (c k) = map_option p_fixed (h k)) (calls st)"
    by (simp add: c list_all_iff fixed_at_flag)
  have 3: "\<forall>j < length (calls st). \<forall>(k, v) \<in> set (product (steplist atm) ! j).
        map_option p_value ((calls st ! j) k) = Some v"
  proof (intro allI impI)
    fix j assume "j < length (calls st)"
    then have "j < length (calls (fst (scan ev h atm)))" by (simp add: s)
    from call_facts(3) [OF assms this]
    show "\<forall>(k, v) \<in> set (product (steplist atm) ! j).
        map_option p_value ((calls st ! j) k) = Some v"
      by (simp add: s)
  qed
  have 4: "err = None \<and> length (calls st) = length (product (steplist atm))"
    if "\<forall>pos \<in> set (product (steplist atm)). returns_llh ev (fixed_at h pos)"
    using scan_returns [OF assms that] by (auto simp: s)
  show ?thesis unfolding s using 1 2 3 4 by simp
qed

theorem scan_keeps_fixed_flags_witness:
  "scan_ready ex_hypo ex_atm \<and>
   list_all (\<lambda>pos. returns_llh ex_eval (fixed_at ex_hypo pos)) (product (steplist ex_atm)) \<and>
   map_option p_fixed (ex_hypo ''theta23'') = Some True \<and>
   snd (scan ex_eval ex_hypo ex_atm) = None \<and>
   length (calls (fst (scan ex_eval ex_hypo ex_atm))) = 6 \<and>
   map_option p_fixed (hypo_params (fst (scan ex_eval ex_hypo ex_atm)) ''theta23'') = Some True"
proof -
  have a: "scan_ready ex_hypo ex_atm"
    by (simp add: scan_ready_def ex_hypo_def ex_atm_def)
  have b: "\<forall>pos \<in> set (product (steplist ex_atm)). returns_llh ex_eval (fixed_at ex_hypo pos)"
    by (simp add: returns_llh_def ex_eval_def)
  have c: "length (product (steplist ex_atm)) = 6"
    by (simp add: length_points ex_atm_def)
  have d: "map_option p_fixed (ex_hypo ''theta23'') = Some True"
    by (simp add: ex_hypo_def ex_atm_def)
  obtain st err where s: "scan ex_eval ex_hypo ex_atm = (st, err)"
    by (cases "scan ex_eval ex_hypo ex_atm")
  from scan_keeps_fixed_flags [OF a, of ex_eval] b
  have "map_option p_fixed (hypo_params st ''theta23'') = map_option p_fixed (ex_hypo ''theta23'')"
    "err = None" "length (calls st) = length (product (steplist ex_atm))"
    by (simp_all add: s)
  then show ?thesis using a b c d by (simp add: s list_all_iff)
qed

text \<open>
  Claim C7 as stated fails. A scanned parameter that is already marked fixed is not
  refused, and it still is marked fixed after the scan; a scanned parameter that is not
  marked fixed is given to the optimizer unmarked.
\<close>

theorem fixed_flag_counterexample:
  "map_option p_fixed (ex_hypo ''theta23'') = Some True \<and>
   snd (scan ex_eval ex_hypo ex_atm) = None \<and>
   map_option p_fixed (hypo_params (fst (scan ex_eval ex_hypo ex_atm)) ''theta23'') = Some True \<and>
   map (\<lambda>c. map_option p_fixed (c ''theta23'')) (calls (fst (scan ex_eval free_hypo free_atm))) =
     [Some False]"
proof -
  have a: "scan_ready ex_hypo ex_atm"
    by (simp add: scan_ready_def ex_hypo_def ex_atm_def)
  have b: "\<forall>pos \<in> set (product (steplist ex_atm)). returns_llh ex_eval (fixed_at ex_hypo pos)"
    by (simp add: returns_llh_def ex_eval_def)
  have d: "map_option p_fixed (ex_hypo ''theta23'') = Some True"
    by (simp add: ex_hypo_def ex_atm_def)
  from scan_returns [OF a b] obtain st where
    s: "scan ex_eval ex_hypo ex_atm = (st, None)" and
    h: "hypo_params st = fixed_at ex_hypo (last ([] # product (steplist ex_atm)))"
    by blast
  have 1: "map_option p_fixed (hypo_params st ''theta23'') = Some True"
    by (simp add: h fixed_at_flag d)
  have a': "scan_ready free_hypo free_atm"
    by (simp add: scan_ready_def free_hypo_def free_atm_def)
  have b': "\<forall>pos \<in> set (product (steplist free_atm)). returns_llh ex_eval (fixed_at free_hypo pos)"
    by (simp add: returns_llh_def ex_eval_def)
  from scan_returns [OF a' b'] obtain st' where
    s': "scan ex_eval free_hypo free_atm = (st', None)" and
    c': "calls st' = map (fixed_at free_hypo) (product (steplist free_atm))"
    by blast
  have 2: "map (\<lambda>c. map_option p_fixed (c ''theta23'')) (calls st') = [Some False]"
    unfolding c' by (simp add: fixed_at_flag o_def) (simp add: steplist_def product_eq free_atm_def free_hypo_def)
  show ?thesis using d 1 2 by (simp add: s s')
qed

end
